theory Spec2Isabelle
  imports Main "HOL-Library.Word"
begin

unbundle bit_operations_syntax

section \<open>Data model of \<^verbatim>\<open>affinity.c\<close>\<close>

text \<open>
  The C types of the source. A \<^verbatim>\<open>uint64_t\<close> is a 64-bit word. A C \<^verbatim>\<open>int\<close> (the loop
  counter, the results of the system calls, a \<^verbatim>\<open>pid_t\<close>) is kept as its 32-bit two's
  complement pattern: \<open>sint\<close> reads its value, \<open>+\<close> wraps around, and the conversion
  to \<^verbatim>\<open>uint64_t\<close> or \<^verbatim>\<open>size_t\<close> is the sign extension \<open>scast\<close>. The fourth function of
  the file, \<^verbatim>\<open>get_error\<close>, only returns \<^verbatim>\<open>strerror(errno)\<close>; \<^verbatim>\<open>errno\<close> is not part of the
  model, since no property below reads it.
\<close>

type_synonym u64 = "64 word"
type_synonym c_int = "32 word"

text \<open>
  Modelled from the spec: \<^verbatim>\<open>cpu_set_t\<close> and the macros \<^verbatim>\<open>CPU_ZERO\<close>, \<^verbatim>\<open>CPU_SET\<close> and
  \<^verbatim>\<open>CPU_ISSET\<close> come from the C library's \<^verbatim>\<open>sched.h\<close>, not from this repository. The
  spec calls the CPU-set "the OS-native structure representing a set of CPU cores, opaque
  to callers beyond membership testing", so it is a set of core indices. The macros take
  the index as a \<^verbatim>\<open>size_t\<close> and ignore an index that does not fit the 128 bytes
  (1024 bits) of the structure.
\<close>

type_synonym cpu_set_t = "nat set"

definition CPU_ZERO :: cpu_set_t where
  "CPU_ZERO = {}"

definition CPU_SET :: "c_int \<Rightarrow> cpu_set_t \<Rightarrow> cpu_set_t" where
  "CPU_SET cpu s =
     (let c = unat (scast cpu :: u64) in if c div 8 < 128 then insert c s else s)"

definition CPU_ISSET :: "c_int \<Rightarrow> cpu_set_t \<Rightarrow> bool" where
  "CPU_ISSET cpu s = (let c = unat (scast cpu :: u64) in c div 8 < 128 \<and> c \<in> s)"

text \<open>
  The operating system is a parameter of the model: the three calls the source makes, over
  a state \<open>'st\<close> of the kernel. \<open>sched_getaffinity\<close> gives its \<^verbatim>\<open>int\<close> result and the
  CPU-set it wrote to the buffer; \<open>sched_setaffinity\<close> gives its \<^verbatim>\<open>int\<close> result and
  the new state; \<open>sysconf_nprocessors_onln\<close> is the value of the \<^verbatim>\<open>long\<close> that
  \<^verbatim>\<open>sysconf(_SC_NPROCESSORS_ONLN)\<close> returns.
\<close>

record 'st kernel =
  sched_getaffinity :: "'st \<Rightarrow> c_int \<Rightarrow> c_int \<times> cpu_set_t"
  sched_setaffinity :: "'st \<Rightarrow> c_int \<Rightarrow> cpu_set_t \<Rightarrow> c_int \<times> 'st"
  sysconf_nprocessors_onln :: "'st \<Rightarrow> int"

text \<open>
  What C leaves open is a parameter too. \<open>res_uninit\<close> is the content of the local
  \<^verbatim>\<open>uint64_t res\<close> of \<^verbatim>\<open>get_proc_affinity\<close>, which is declared without an initializer.
  \<open>shl_out_of_range\<close> is the value that \<^verbatim>\<open>1 << i\<close> produces when \<^verbatim>\<open>i\<close> is negative or at
  least the width of \<^verbatim>\<open>int\<close>, which depends on the processor.
\<close>

record machine =
  res_uninit :: u64
  shl_out_of_range :: "c_int \<Rightarrow> c_int"

section \<open>The operations\<close>

text \<open>
  \<^verbatim>\<open>1 << i\<close>: both operands are \<^verbatim>\<open>int\<close>, so the shift is a 32-bit one. For a count
  from 0 to 30 the result is \<open>2 ^ i\<close>. For the count 31 the result does not fit an
  \<^verbatim>\<open>int\<close>; the model takes the two's complement pattern, \<^verbatim>\<open>INT_MIN\<close>, which is what the
  compilers of this program produce. For any other count the result is the machine's.
\<close>

definition shl1 :: "machine \<Rightarrow> c_int \<Rightarrow> c_int" where
  "shl1 m i = (if unat i < 32 then push_bit (unat i) 1 else shl_out_of_range m i)"

text \<open>\<^verbatim>\<open>get_proc_count\<close>: the \<^verbatim>\<open>long\<close> of \<^verbatim>\<open>sysconf\<close> converted to \<^verbatim>\<open>uint64_t\<close>.\<close>

definition get_proc_count :: "'st kernel \<Rightarrow> 'st \<Rightarrow> u64" where
  "get_proc_count k st = word_of_int (sysconf_nprocessors_onln k st)"

text \<open>
  The loop of \<^verbatim>\<open>get_proc_affinity\<close>, from counter \<open>i\<close> and accumulator \<open>res\<close>. The
  condition \<^verbatim>\<open>i < get_proc_count()\<close> is evaluated before every iteration and compares in
  \<^verbatim>\<open>uint64_t\<close>; \<^verbatim>\<open>res |= 1 << i\<close> converts the \<^verbatim>\<open>int\<close> to \<^verbatim>\<open>uint64_t\<close> before the OR;
  \<^verbatim>\<open>i++\<close> is the 32-bit addition, which wraps around at \<^verbatim>\<open>INT_MAX\<close>. The loop ends on
  every input: the condition is false at the counter \<open>-1\<close> at the latest.
\<close>

function get_loop :: "'st kernel \<Rightarrow> machine \<Rightarrow> 'st \<Rightarrow> cpu_set_t \<Rightarrow> c_int \<Rightarrow> u64 \<Rightarrow> u64" where
  "get_loop k m st cpu_set i res =
     (if (scast i :: u64) < get_proc_count k st
      then get_loop k m st cpu_set (i + 1)
             (if CPU_ISSET i cpu_set then res OR scast (shl1 m i) else res)
      else res)"
  by pat_completeness auto

termination get_loop
proof (relation "measure (\<lambda>(k, m, st, cpu_set, i, res). 2 ^ 32 - unat i)")
  show "wf (measure (\<lambda>(k :: 'a kernel, m :: machine, st :: 'a, cpu_set :: cpu_set_t,
                       i :: c_int, res :: u64). 2 ^ 32 - unat i))"
    by simp
next
  fix k :: "'a kernel" and m :: machine and st :: 'a and cpu_set :: cpu_set_t
    and i :: c_int and res :: u64
  assume "(scast i :: u64) < get_proc_count k st"
  then have "i \<noteq> - 1" by (auto simp: scast_n1)
  then have "1 + i \<noteq> 0" by (simp add: eq_neg_iff_add_eq_0 add.commute)
  then have "unat (i + 1) = Suc (unat i)" using unatSuc [of i] by (simp add: add.commute)
  moreover have "unat i < 2 ^ 32" using unsigned_less [of i, where 'a = nat] by simp
  ultimately show "((k, m, st, cpu_set, i + 1,
                     if CPU_ISSET i cpu_set then res OR scast (shl1 m i) else res),
                    (k, m, st, cpu_set, i, res))
                   \<in> measure (\<lambda>(k, m, st, cpu_set, i, res). 2 ^ 32 - unat i)"
    by simp
qed

text \<open>
  \<^verbatim>\<open>get_proc_affinity\<close>. The \<^verbatim>\<open>uint64_t pid\<close> is converted to the \<^verbatim>\<open>pid_t\<close> (an
  \<^verbatim>\<open>int\<close>) that \<^verbatim>\<open>sched_getaffinity\<close> takes. The accumulator starts from whatever the
  local \<^verbatim>\<open>res\<close> holds.
\<close>

definition get_proc_affinity :: "'st kernel \<Rightarrow> machine \<Rightarrow> 'st \<Rightarrow> u64 \<Rightarrow> u64" where
  "get_proc_affinity k m st pid =
     (case sched_getaffinity k st (ucast pid) of
        (result, cpu_set) \<Rightarrow>
          if result = - 1 then 0 else get_loop k m st cpu_set 0 (res_uninit m))"

text \<open>
  The loop of \<^verbatim>\<open>set_proc_affinity\<close>: \<^verbatim>\<open>(cpus & (1 << i)) != 0\<close> converts the \<^verbatim>\<open>int\<close>
  \<^verbatim>\<open>1 << i\<close> to \<^verbatim>\<open>uint64_t\<close> before the AND.
\<close>

function set_loop :: "'st kernel \<Rightarrow> machine \<Rightarrow> 'st \<Rightarrow> u64 \<Rightarrow> c_int \<Rightarrow> cpu_set_t \<Rightarrow> cpu_set_t" where
  "set_loop k m st cpus i cpu_set =
     (if (scast i :: u64) < get_proc_count k st
      then set_loop k m st cpus (i + 1)
             (if cpus AND scast (shl1 m i) \<noteq> 0 then CPU_SET i cpu_set else cpu_set)
      else cpu_set)"
  by pat_completeness auto

termination set_loop
proof (relation "measure (\<lambda>(k, m, st, cpus, i, cpu_set). 2 ^ 32 - unat i)")
  show "wf (measure (\<lambda>(k :: 'a kernel, m :: machine, st :: 'a, cpus :: u64,
                       i :: c_int, cpu_set :: cpu_set_t). 2 ^ 32 - unat i))"
    by simp
next
  fix k :: "'a kernel" and m :: machine and st :: 'a and cpus :: u64
    and i :: c_int and cpu_set :: cpu_set_t
  assume "(scast i :: u64) < get_proc_count k st"
  then have "i \<noteq> - 1" by (auto simp: scast_n1)
  then have "1 + i \<noteq> 0" by (simp add: eq_neg_iff_add_eq_0 add.commute)
  then have "unat (i + 1) = Suc (unat i)" using unatSuc [of i] by (simp add: add.commute)
  moreover have "unat i < 2 ^ 32" using unsigned_less [of i, where 'a = nat] by simp
  ultimately show "((k, m, st, cpus, i + 1,
                     if cpus AND scast (shl1 m i) \<noteq> 0 then CPU_SET i cpu_set else cpu_set),
                    (k, m, st, cpus, i, cpu_set))
                   \<in> measure (\<lambda>(k, m, st, cpus, i, cpu_set). 2 ^ 32 - unat i)"
    by simp
qed

text \<open>
  \<^verbatim>\<open>set_proc_affinity\<close>: the CPU-set is built from \<^verbatim>\<open>CPU_ZERO\<close> and the result of
  \<^verbatim>\<open>sched_setaffinity\<close> is returned as it is, together with the state the call leaves.
\<close>

definition set_proc_affinity :: "'st kernel \<Rightarrow> machine \<Rightarrow> 'st \<Rightarrow> u64 \<Rightarrow> u64 \<Rightarrow> c_int \<times> 'st" where
  "set_proc_affinity k m st pid cpus =
     sched_setaffinity k st (ucast pid) (set_loop k m st cpus 0 CPU_ZERO)"

text \<open>
  Two instances for the examples. \<open>table_kernel n\<close> is a kernel on a host of \<open>n\<close>
  processors that keeps the affinity of each existing process in a table: a query of a
  process that is not in the table fails with \<open>-1\<close>, and so does a request for an empty
  CPU-set. \<open>wrap_machine r\<close> is a machine whose shift instruction uses the count modulo
  32 and where the local \<^verbatim>\<open>res\<close> holds \<open>r\<close> on entry.
\<close>

definition table_kernel :: "int \<Rightarrow> (c_int \<Rightarrow> cpu_set_t option) kernel" where
  "table_kernel n =
     \<lparr>sched_getaffinity = (\<lambda>st pid. case st pid of None \<Rightarrow> (- 1, {}) | Some s \<Rightarrow> (0, s)),
      sched_setaffinity = (\<lambda>st pid s. case st pid of
                               None \<Rightarrow> (- 1, st)
                             | Some old \<Rightarrow> if s = {} then (- 1, st) else (0, st(pid \<mapsto> s))),
      sysconf_nprocessors_onln = (\<lambda>st. n)\<rparr>"

definition wrap_machine :: "u64 \<Rightarrow> machine" where
  "wrap_machine r = \<lparr>res_uninit = r, shl_out_of_range = (\<lambda>i. push_bit (unat i mod 32) 1)\<rparr>"

text \<open>
  \<open>cpuset_kernel n allowed\<close> is a kernel that, like Linux under a cpuset, confines every
  process to the CPUs in \<open>allowed\<close>: a request is cut down to its allowed part, which
  becomes the affinity, and the call returns 0; it fails with \<open>-1\<close> only when no CPU of
  the request is allowed or the process does not exist.
\<close>

definition cpuset_kernel :: "int \<Rightarrow> cpu_set_t \<Rightarrow> (c_int \<Rightarrow> cpu_set_t option) kernel" where
  "cpuset_kernel n allowed =
     \<lparr>sched_getaffinity = (\<lambda>st pid. case st pid of None \<Rightarrow> (- 1, {}) | Some s \<Rightarrow> (0, s)),
      sched_setaffinity = (\<lambda>st pid s. case st pid of
                               None \<Rightarrow> (- 1, st)
                             | Some old \<Rightarrow> if s \<inter> allowed = {} then (- 1, st)
                                          else (0, st(pid \<mapsto> s \<inter> allowed))),
      sysconf_nprocessors_onln = (\<lambda>st. n)\<rparr>"

declare get_loop.simps [simp del]
declare set_loop.simps [simp del]

section \<open>Auxiliary facts\<close>

text \<open>
  Induction along the loop counter: a property holds at every counter value if it holds
  at \<open>i\<close> whenever it holds at \<open>i + 1\<close> in case the loop condition is true at \<open>i\<close>.
\<close>

lemma counter_induct:
  fixes n :: u64 and i :: c_int
  assumes step: "\<And>i. ((scast i :: u64) < n \<Longrightarrow> P (i + 1)) \<Longrightarrow> P i"
  shows "P i"
proof (induction "2 ^ 32 - unat i" arbitrary: i rule: less_induct)
  case less
  show ?case
  proof (rule step)
    assume "(scast i :: u64) < n"
    then have "i \<noteq> - 1" by (auto simp: scast_n1)
    then have "1 + i \<noteq> 0" by (simp add: eq_neg_iff_add_eq_0 add.commute)
    then have "unat (i + 1) = Suc (unat i)" using unatSuc [of i] by (simp add: add.commute)
    moreover have "unat i < 2 ^ 32" using unsigned_less [of i, where 'a = nat] by simp
    ultimately have "(2::nat) ^ 32 - unat (i + 1) < 2 ^ 32 - unat i" by simp
    then show "P (i + 1)" by (rule less.hyps)
  qed
qed

lemma not_bit31: "unat (i :: c_int) < 2 ^ 31 \<Longrightarrow> \<not> bit i 31"
proof -
  assume "unat i < 2 ^ 31"
  then have "\<not> bit (unat i) 31" by (simp add: bit_iff_odd)
  then show ?thesis by (simp add: bit_unsigned_iff)
qed

lemma scast_small: "unat (i :: c_int) < 2 ^ 31 \<Longrightarrow> (scast i :: u64) = ucast i"
  by (rule bit_word_eqI) (auto simp: bit_word_scast_iff bit_word_ucast_iff not_bit31 dest: bit_imp_le_length)

lemma unat_ucast_c_int: "unat (ucast (i :: c_int) :: u64) = unat i"
proof -
  have "unat i < 2 ^ 64" using unsigned_less [of i, where 'a = nat] by simp
  then show ?thesis by (simp add: unsigned_ucast_eq take_bit_nat_eq_self)
qed

lemma unat_scast_small: "unat (i :: c_int) < 2 ^ 31 \<Longrightarrow> unat (scast i :: u64) = unat i"
  by (simp add: scast_small unat_ucast_c_int)

lemma scast_eq_minus1: "(scast (i :: c_int) :: u64) = - 1 \<Longrightarrow> i = - 1"
proof (rule bit_word_eqI)
  fix n
  assume a: "(scast i :: u64) = - 1" and n: "n < LENGTH(32)"
  have "bit (scast i :: u64) n" using n by (simp add: a)
  then show "bit i n = bit (- 1 :: c_int) n" using n by (simp add: bit_word_scast_iff)
qed


lemma get_loop_step:
  "(scast i :: u64) < get_proc_count k st \<Longrightarrow>
   get_loop k m st cs i res =
     get_loop k m st cs (i + 1) (if CPU_ISSET i cs then res OR scast (shl1 m i) else res)"
  by (simp add: get_loop.simps [of k m st cs i])

lemma get_loop_stop:
  "\<not> (scast i :: u64) < get_proc_count k st \<Longrightarrow> get_loop k m st cs i res = res"
  by (simp add: get_loop.simps [of k m st cs i])

lemma set_loop_step:
  "(scast i :: u64) < get_proc_count k st \<Longrightarrow>
   set_loop k m st cpus i s =
     set_loop k m st cpus (i + 1) (if cpus AND scast (shl1 m i) \<noteq> 0 then CPU_SET i s else s)"
  by (simp add: set_loop.simps [of k m st cpus i])

lemma set_loop_stop:
  "\<not> (scast i :: u64) < get_proc_count k st \<Longrightarrow> set_loop k m st cpus i s = s"
  by (simp add: set_loop.simps [of k m st cpus i])

lemma get_loop_acc: "get_loop k m st cs i res = res OR get_loop k m st cs i 0"
proof -
  have "\<forall>res. get_loop k m st cs i res = res OR get_loop k m st cs i 0"
  proof (rule counter_induct [of "get_proc_count k st"])
    fix j
    assume IH: "(scast j :: u64) < get_proc_count k st \<Longrightarrow>
                 \<forall>res. get_loop k m st cs (j + 1) res = res OR get_loop k m st cs (j + 1) 0"
    show "\<forall>res. get_loop k m st cs j res = res OR get_loop k m st cs j 0"
    proof (cases "(scast j :: u64) < get_proc_count k st")
      case True
      show ?thesis
      proof
        fix res
        let ?x = "if CPU_ISSET j cs then scast (shl1 m j) else (0 :: u64)"
        have "get_loop k m st cs j res = (res OR ?x) OR get_loop k m st cs (j + 1) 0"
          using IH [OF True, rule_format, of "res OR ?x"]
          by (cases "CPU_ISSET j cs") (simp_all add: get_loop_step [OF True])
        moreover have "get_loop k m st cs j 0 = ?x OR get_loop k m st cs (j + 1) 0"
          using IH [OF True, rule_format, of ?x]
          by (cases "CPU_ISSET j cs") (simp_all add: get_loop_step [OF True])
        ultimately show "get_loop k m st cs j res = res OR get_loop k m st cs j 0"
          by (simp add: or.assoc)
      qed
    next
      case False
      then show ?thesis by (simp add: get_loop_stop)
    qed
  qed
  then show ?thesis by blast
qed


lemma get_loop_empty: "get_loop k m st {} i res = res"
proof (rule counter_induct [of "get_proc_count k st" "\<lambda>i. get_loop k m st {} i res = res"])
  fix j
  assume IH: "(scast j :: u64) < get_proc_count k st \<Longrightarrow> get_loop k m st {} (j + 1) res = res"
  show "get_loop k m st {} j res = res"
  proof (cases "(scast j :: u64) < get_proc_count k st")
    case True
    then show ?thesis using IH by (simp add: get_loop_step CPU_ISSET_def)
  next
    case False
    then show ?thesis by (simp add: get_loop_stop)
  qed
qed




lemma table_kernel_sysconf [simp]: "sysconf_nprocessors_onln (table_kernel n) st = n"
  by (simp add: table_kernel_def)

lemma table_kernel_get [simp]:
  "sched_getaffinity (table_kernel n) st pid = (case st pid of None \<Rightarrow> (- 1, {}) | Some s \<Rightarrow> (0, s))"
  by (simp add: table_kernel_def)

lemma table_kernel_set [simp]:
  "sched_setaffinity (table_kernel n) st pid s =
     (case st pid of None \<Rightarrow> (- 1, st)
      | Some old \<Rightarrow> if s = {} then (- 1, st) else (0, st(pid \<mapsto> s)))"
  by (simp add: table_kernel_def)

lemma wrap_machine_res [simp]: "res_uninit (wrap_machine r) = r"
  by (simp add: wrap_machine_def)

lemma loop_cond_failure:
  assumes "sysconf_nprocessors_onln k st = - 1"
  shows "((scast (i :: c_int) :: u64) < get_proc_count k st) = (i \<noteq> - 1)"
proof -
  have "get_proc_count k st = - 1" using assms by (simp add: get_proc_count_def)
  moreover have "((scast i :: u64) < - 1) = (scast i \<noteq> (- 1 :: u64))"
    by (simp add: word_order.not_eq_extremum)
  moreover have "((scast i :: u64) = - 1) = (i = - 1)"
    by (auto simp: scast_n1 dest: scast_eq_minus1)
  ultimately show ?thesis by simp
qed

lemma counter_succ: "(scast (j :: c_int) :: u64) < n \<Longrightarrow> unat (j + 1) = Suc (unat j)"
proof -
  assume "(scast j :: u64) < n"
  then have "j \<noteq> - 1" by (auto simp: scast_n1)
  then have "1 + j \<noteq> 0" by (simp add: eq_neg_iff_add_eq_0 add.commute)
  then show ?thesis using unatSuc [of j] by (simp add: add.commute)
qed

lemma loop_cond_small:
  "unat (j :: c_int) < 2 ^ 31 \<Longrightarrow> ((scast j :: u64) < n) = (unat j < unat n)"
  by (simp add: word_less_nat_alt unat_scast_small)

lemma CPU_ISSET_small: "unat (j :: c_int) \<le> 31 \<Longrightarrow> CPU_ISSET j cs = (unat j \<in> cs)"
proof -
  assume j: "unat j \<le> 31"
  moreover have "unat j div 8 \<le> unat j" by (rule div_le_dividend)
  ultimately have "unat j div 8 < 128" by linarith
  then show ?thesis using j by (simp add: CPU_ISSET_def Let_def unat_scast_small)
qed

lemma CPU_SET_small: "unat (j :: c_int) \<le> 31 \<Longrightarrow> CPU_SET j s = insert (unat j) s"
proof -
  assume j: "unat j \<le> 31"
  have "unat j div 8 \<le> unat j" by (rule div_le_dividend)
  with j have "unat j div 8 < 128" by linarith
  then show ?thesis using j by (simp add: CPU_SET_def Let_def unat_scast_small)
qed

lemma shl1_small: "unat (j :: c_int) \<le> 31 \<Longrightarrow> shl1 m j = push_bit (unat j) 1"
  by (simp add: shl1_def)

lemma bit_shift_u64:
  "bit (scast (push_bit t 1 :: c_int) :: u64) b = (t \<le> 31 \<and> b < 64 \<and> (if t = 31 then 31 \<le> b else b = t))"
proof -
  have p: "bit (push_bit t 1 :: c_int) n = (n = t \<and> t < 32)" for n
    by (auto simp: bit_push_bit_iff bit_1_iff simp del: push_bit_of_1)
  show ?thesis unfolding bit_word_scast_iff p by auto
qed



lemma set_loop_same_count:
  assumes "get_proc_count k st' = get_proc_count k st"
  shows "set_loop k m st' cpus i s = set_loop k m st cpus i s"
proof -
  have "\<forall>s. set_loop k m st' cpus i s = set_loop k m st cpus i s"
  proof (rule counter_induct [of "get_proc_count k st"])
    fix j
    assume IH: "(scast j :: u64) < get_proc_count k st \<Longrightarrow>
                 \<forall>s. set_loop k m st' cpus (j + 1) s = set_loop k m st cpus (j + 1) s"
    show "\<forall>s. set_loop k m st' cpus j s = set_loop k m st cpus j s"
    proof (cases "(scast j :: u64) < get_proc_count k st")
      case True
      then have "(scast j :: u64) < get_proc_count k st'" using assms by simp
      then show ?thesis using IH [OF True] by (simp add: set_loop_step True)
    next
      case False
      then have "\<not> (scast j :: u64) < get_proc_count k st'" using assms by simp
      then show ?thesis using False by (simp add: set_loop_stop)
    qed
  qed
  then show ?thesis by blast
qed

lemma get_loop_same_shift:
  assumes "shl_out_of_range m' = shl_out_of_range m"
  shows "get_loop k m' st cs i res = get_loop k m st cs i res"
proof -
  have sh: "shl1 m' j = shl1 m j" for j using assms by (simp add: shl1_def)
  have "\<forall>res. get_loop k m' st cs i res = get_loop k m st cs i res"
  proof (rule counter_induct [of "get_proc_count k st"])
    fix j
    assume IH: "(scast j :: u64) < get_proc_count k st \<Longrightarrow>
                 \<forall>res. get_loop k m' st cs (j + 1) res = get_loop k m st cs (j + 1) res"
    show "\<forall>res. get_loop k m' st cs j res = get_loop k m st cs j res"
    proof (cases "(scast j :: u64) < get_proc_count k st")
      case True
      then show ?thesis using IH [OF True] by (simp add: get_loop_step sh)
    next
      case False
      then show ?thesis by (simp add: get_loop_stop)
    qed
  qed
  then show ?thesis by blast
qed


lemma wrap_machine_shift [simp]:
  "shl_out_of_range (wrap_machine r) = (\<lambda>i. push_bit (unat i mod 32) 1)"
  by (simp add: wrap_machine_def)

lemma table_kernel_count [simp]: "get_proc_count (table_kernel n) st = word_of_int n"
  by (simp add: get_proc_count_def)

lemma example_get_loop_1: "get_loop (table_kernel 1) m st {0} 0 res = res OR 1"
  by (simp add: get_loop.simps CPU_ISSET_def shl1_def)

lemma example_set_loop_4: "set_loop (table_kernel 4) m st 5 0 CPU_ZERO = {0, 2}"
  by (simp add: set_loop.simps CPU_SET_def CPU_ZERO_def shl1_def insert_commute)

lemma example_get_loop_4: "get_loop (table_kernel 4) m st {0, 2} 0 res = res OR 5"
  by (simp add: get_loop.simps CPU_ISSET_def shl1_def or.assoc)

lemma scast_shift_small: "t < 31 \<Longrightarrow> (scast (push_bit t 1 :: c_int) :: u64) = 2 ^ t"
  by (rule bit_word_eqI) (auto simp: bit_shift_u64 bit_exp_iff simp del: push_bit_of_1)

lemma and_shift_test:
  "t < 31 \<Longrightarrow> (cpus AND scast (push_bit t 1 :: c_int) \<noteq> (0 :: u64)) = bit cpus t"
  by (simp add: scast_shift_small and_exp_eq_0_iff_not_bit del: push_bit_of_1)

lemma set_loop_exact_from:
  assumes n: "unat (get_proc_count k st) \<le> 31"
  shows "unat i \<le> unat (get_proc_count k st) \<longrightarrow>
         (\<forall>s. set_loop k m st cpus i s =
                s \<union> {t. unat i \<le> t \<and> t < unat (get_proc_count k st) \<and> bit cpus t})"
proof (rule counter_induct [of "get_proc_count k st"])
  fix j
  let ?n = "unat (get_proc_count k st)"
  assume IH: "(scast j :: u64) < get_proc_count k st \<Longrightarrow>
               unat (j + 1) \<le> ?n \<longrightarrow>
               (\<forall>s. set_loop k m st cpus (j + 1) s =
                      s \<union> {t. unat (j + 1) \<le> t \<and> t < ?n \<and> bit cpus t})"
  show "unat j \<le> ?n \<longrightarrow>
        (\<forall>s. set_loop k m st cpus j s = s \<union> {t. unat j \<le> t \<and> t < ?n \<and> bit cpus t})"
  proof (intro impI allI)
    fix s
    assume j: "unat j \<le> ?n"
    with n have small: "unat j < 2 ^ 31" "unat j \<le> 31" by simp_all
    show "set_loop k m st cpus j s = s \<union> {t. unat j \<le> t \<and> t < ?n \<and> bit cpus t}"
    proof (cases "unat j < ?n")
      case True
      then have cond: "(scast j :: u64) < get_proc_count k st"
        by (simp add: loop_cond_small [OF small(1)])
      have lt: "unat j < 31" using True n by simp
      have next_le: "unat (j + 1) \<le> ?n" using True by (simp add: counter_succ [OF cond])
      let ?s' = "if bit cpus (unat j) then insert (unat j) s else s"
      have "set_loop k m st cpus j s = set_loop k m st cpus (j + 1) ?s'"
        by (simp add: set_loop_step [OF cond] shl1_small [OF small(2)] CPU_SET_small [OF small(2)]
              and_shift_test [OF lt] del: push_bit_of_1)
      also have "\<dots> = ?s' \<union> {t. Suc (unat j) \<le> t \<and> t < ?n \<and> bit cpus t}"
        using IH [OF cond] next_le by (simp add: counter_succ [OF cond])
      also have "\<dots> = s \<union> {t. unat j \<le> t \<and> t < ?n \<and> bit cpus t}"
        using True by (auto simp: Suc_le_eq le_less)
      finally show ?thesis .
    next
      case False
      then have "\<not> (scast j :: u64) < get_proc_count k st"
        by (simp add: loop_cond_small [OF small(1)])
      then show ?thesis using False by (auto simp: set_loop_stop)
    qed
  qed
qed

lemma set_loop_exact:
  assumes "unat (get_proc_count k st) \<le> 31"
  shows "set_loop k m st cpus 0 CPU_ZERO = {t. t < unat (get_proc_count k st) \<and> bit cpus t}"
  using set_loop_exact_from [OF assms, of 0 m cpus] by (simp add: CPU_ZERO_def)

lemma get_loop_exact_from:
  assumes n: "unat (get_proc_count k st) \<le> 31"
  shows "unat i \<le> unat (get_proc_count k st) \<longrightarrow>
         (\<forall>res. bit (get_loop k m st cs i res) b =
                (bit res b \<or> unat i \<le> b \<and> b < unat (get_proc_count k st) \<and> b \<in> cs))"
proof (rule counter_induct [of "get_proc_count k st"])
  fix j
  let ?n = "unat (get_proc_count k st)"
  assume IH: "(scast j :: u64) < get_proc_count k st \<Longrightarrow>
               unat (j + 1) \<le> ?n \<longrightarrow>
               (\<forall>res. bit (get_loop k m st cs (j + 1) res) b =
                      (bit res b \<or> unat (j + 1) \<le> b \<and> b < ?n \<and> b \<in> cs))"
  show "unat j \<le> ?n \<longrightarrow>
        (\<forall>res. bit (get_loop k m st cs j res) b =
               (bit res b \<or> unat j \<le> b \<and> b < ?n \<and> b \<in> cs))"
  proof (intro impI allI)
    fix res
    assume j: "unat j \<le> ?n"
    with n have small: "unat j < 2 ^ 31" "unat j \<le> 31" by simp_all
    show "bit (get_loop k m st cs j res) b = (bit res b \<or> unat j \<le> b \<and> b < ?n \<and> b \<in> cs)"
    proof (cases "unat j < ?n")
      case True
      then have cond: "(scast j :: u64) < get_proc_count k st"
        by (simp add: loop_cond_small [OF small(1)])
      have lt: "unat j < 31" using True n by simp
      have next_le: "unat (j + 1) \<le> ?n" using True by (simp add: counter_succ [OF cond])
      let ?res' = "if unat j \<in> cs then res OR 2 ^ unat j else res"
      have res': "bit ?res' b = (bit res b \<or> unat j \<in> cs \<and> b = unat j)"
        using lt by (auto simp: bit_or_iff bit_exp_iff)
      have "get_loop k m st cs j res = get_loop k m st cs (j + 1) ?res'"
        by (simp add: get_loop_step [OF cond] shl1_small [OF small(2)] CPU_ISSET_small [OF small(2)]
              scast_shift_small [OF lt] del: push_bit_of_1)
      then have "bit (get_loop k m st cs j res) b =
                 (bit ?res' b \<or> Suc (unat j) \<le> b \<and> b < ?n \<and> b \<in> cs)"
        using IH [OF cond] next_le by (simp add: counter_succ [OF cond])
      then show ?thesis unfolding res' using True by (auto simp: Suc_le_eq le_less)
    next
      case False
      then have "\<not> (scast j :: u64) < get_proc_count k st"
        by (simp add: loop_cond_small [OF small(1)])
      then show ?thesis using False by (auto simp: get_loop_stop)
    qed
  qed
qed

lemma get_loop_exact:
  assumes "unat (get_proc_count k st) \<le> 31"
  shows "bit (get_loop k m st cs 0 res) b =
         (bit res b \<or> b < unat (get_proc_count k st) \<and> b \<in> cs)"
  using get_loop_exact_from [OF assms, of 0 m cs b] by simp

lemma example_get_loop_32:
  "get_loop (table_kernel 32) m st {31} 0 0 = 0xFFFFFFFF80000000"
  by (simp add: get_loop.simps CPU_ISSET_def shl1_def)

lemma example_set_loop_32_high:
  "set_loop (table_kernel 32) m st 0x10000000000 0 CPU_ZERO = {31}"
  by (simp add: set_loop.simps CPU_SET_def CPU_ZERO_def shl1_def)

lemma example_set_loop_32_zero:
  "set_loop (table_kernel 32) m st 0 0 CPU_ZERO = {}"
  by (simp add: set_loop.simps CPU_SET_def CPU_ZERO_def shl1_def)

section \<open>What \<^verbatim>\<open>get_proc_affinity\<close> returns\<close>

text \<open>
  On a host of at most 31 processors, and when the local \<^verbatim>\<open>res\<close> happens to hold 0, the
  result of a successful query is the membership mask of the reported CPU-set below the
  processor count.
\<close>

lemma get_proc_affinity_exact:
  assumes "sched_getaffinity k st (ucast pid) = (r, cs)" and "r \<noteq> - 1"
    and "unat (get_proc_count k st) \<le> 31" and "res_uninit m = 0"
  shows "bit (get_proc_affinity k m st pid) b = (b < unat (get_proc_count k st) \<and> b \<in> cs)"
  using assms by (simp add: get_proc_affinity_def get_loop_exact)

text \<open>
  Claim C1 says that for every successful query the result has bit \<open>i\<close> set exactly
  when core \<open>i\<close> is below the processor count and in the reported CPU-set, and no bit at
  or above the processor count. The code does not do that. With one processor, the
  reported set \<open>{0}\<close> and the value 2 left in the local \<^verbatim>\<open>res\<close>, the result is 3: bit 1
  is set. With 32 processors, the reported set \<open>{31}\<close> and a zero accumulator, the
  result is \<open>0xFFFFFFFF80000000\<close>: \<^verbatim>\<open>1 << 31\<close> is the \<^verbatim>\<open>int\<close> \<^verbatim>\<open>INT_MIN\<close>, whose conversion
  to \<^verbatim>\<open>uint64_t\<close> sets the bits 31 to 63.
\<close>

theorem get_proc_affinity_failing_inputs:
  "get_proc_affinity (table_kernel 1) (wrap_machine 2) [7 \<mapsto> {0}] 7 = 3 \<and>
   get_proc_affinity (table_kernel 32) (wrap_machine 0) [7 \<mapsto> {31}] 7 = 0xFFFFFFFF80000000"
  by (simp add: get_proc_affinity_def example_get_loop_1 example_get_loop_32)

text \<open>
  Claim C2. The accumulator of \<^verbatim>\<open>get_proc_affinity\<close> starts from the content of the
  local \<^verbatim>\<open>res\<close>, which has no initializer: the result of a successful query is that
  content OR-ed with the result a zero accumulator gives, so for every bit index below 64
  there is an initial content that makes the bit appear in the result, member of the
  CPU-set or not.
\<close>

theorem get_proc_affinity_uninitialized:
  assumes "fst (sched_getaffinity k st (ucast pid)) \<noteq> - 1"
  shows "get_proc_affinity k m st pid =
           res_uninit m OR get_proc_affinity k (m\<lparr>res_uninit := 0\<rparr>) st pid \<and>
         (\<forall>b<64. \<exists>r. bit (get_proc_affinity k (m\<lparr>res_uninit := r\<rparr>) st pid) b)"
proof -
  obtain result cs where q: "sched_getaffinity k st (ucast pid) = (result, cs)"
    by (cases "sched_getaffinity k st (ucast pid)")
  with assms have ok: "result \<noteq> - 1" by simp
  have val: "get_proc_affinity k (m\<lparr>res_uninit := r\<rparr>) st pid = r OR get_loop k m st cs 0 0" for r
    using ok get_loop_acc [of k m st cs 0 r]
    by (simp add: get_proc_affinity_def q get_loop_same_shift [of "m\<lparr>res_uninit := r\<rparr>" m])
  have "get_proc_affinity k m st pid = res_uninit m OR get_loop k m st cs 0 0"
    using val [of "res_uninit m"] by simp
  then have first: "get_proc_affinity k m st pid =
           res_uninit m OR get_proc_affinity k (m\<lparr>res_uninit := 0\<rparr>) st pid"
    by (simp add: val)
  have "\<exists>r. bit (get_proc_affinity k (m\<lparr>res_uninit := r\<rparr>) st pid) b" if "b < 64" for b
  proof
    show "bit (get_proc_affinity k (m\<lparr>res_uninit := push_bit b 1\<rparr>) st pid) b"
      using that by (simp add: val bit_or_iff bit_exp_iff)
  qed
  with first show ?thesis by blast
qed

theorem get_proc_affinity_uninitialized_witness:
  "fst (sched_getaffinity (table_kernel 1) [7 \<mapsto> {0}] (ucast (7 :: u64))) \<noteq> - 1 \<and>
   get_proc_affinity (table_kernel 1) (wrap_machine 2) [7 \<mapsto> {0}] 7 = 3 \<and>
   get_proc_affinity (table_kernel 1) (wrap_machine 0) [7 \<mapsto> {0}] 7 = 1 \<and>
   (\<exists>r. bit (get_proc_affinity (table_kernel 1) ((wrap_machine 2)\<lparr>res_uninit := r\<rparr>) [7 \<mapsto> {0}] 7) 1)"
proof -
  have z: "(wrap_machine 2)\<lparr>res_uninit := 0\<rparr> = wrap_machine 0" by (simp add: wrap_machine_def)
  have one: "get_proc_affinity (table_kernel 1) (wrap_machine 0) [7 \<mapsto> {0}] 7 = 1"
    by (simp add: get_proc_affinity_def example_get_loop_1)
  show ?thesis
    using get_proc_affinity_uninitialized
            [of "table_kernel 1" "[7 \<mapsto> {0}]" 7 "wrap_machine 2"]
    by (simp add: z one)
qed

section \<open>The shift of the conversion loops\<close>

text \<open>For a counter below 31 the shift converted to \<^verbatim>\<open>uint64_t\<close> is \<open>2 ^ i\<close>.\<close>

lemma shift_below_31:
  "unat i < 31 \<Longrightarrow> (scast (shl1 m i) :: u64) = 2 ^ unat i"
  by (simp add: shl1_small scast_shift_small del: push_bit_of_1)

text \<open>
  Claim C3 says that for every core index \<open>i\<close> below 64 and below the processor count
  the shift of both loops is \<open>2 ^ i\<close>, so that bit \<open>i\<close> of the mask stands for CPU \<open>i\<close>.
  At \<open>i = 31\<close> the shift \<^verbatim>\<open>1 << i\<close>, computed in \<^verbatim>\<open>int\<close> and then converted, is
  \<open>0xFFFFFFFF80000000\<close> and not \<open>2 ^ 31\<close>; the test of \<^verbatim>\<open>set_proc_affinity\<close> at
  \<open>i = 31\<close> therefore succeeds on the mask \<open>2 ^ 32\<close>, whose bit 31 is clear.
\<close>

theorem shift_at_31:
  "(scast (shl1 (wrap_machine 0) 31) :: u64) = 0xFFFFFFFF80000000 \<and>
   (scast (shl1 (wrap_machine 0) 31) :: u64) \<noteq> 2 ^ 31 \<and>
   (2 ^ 32 :: u64) AND scast (shl1 (wrap_machine 0) 31) \<noteq> 0"
  by (simp add: shl1_def)

section \<open>Round trip\<close>

lemma cpuset_kernel_sysconf [simp]: "sysconf_nprocessors_onln (cpuset_kernel n allowed) st = n"
  by (simp add: cpuset_kernel_def)

lemma cpuset_kernel_count [simp]: "get_proc_count (cpuset_kernel n allowed) st = word_of_int n"
  by (simp add: get_proc_count_def)

lemma cpuset_kernel_get [simp]:
  "sched_getaffinity (cpuset_kernel n allowed) st pid =
     (case st pid of None \<Rightarrow> (- 1, {}) | Some s \<Rightarrow> (0, s))"
  by (simp add: cpuset_kernel_def)

lemma cpuset_kernel_set [simp]:
  "sched_setaffinity (cpuset_kernel n allowed) st pid s =
     (case st pid of None \<Rightarrow> (- 1, st)
      | Some old \<Rightarrow> if s \<inter> allowed = {} then (- 1, st) else (0, st(pid \<mapsto> s \<inter> allowed)))"
  by (simp add: cpuset_kernel_def)






section \<open>Failure of the affinity query\<close>

text \<open>
  Claim C5. When \<^verbatim>\<open>sched_getaffinity\<close> fails (result \<open>-1\<close>), \<^verbatim>\<open>get_proc_affinity\<close>
  returns exactly 0, whatever the machine and the pid. A query that succeeds and reports
  an empty CPU-set also returns 0 when the accumulator happens to start at 0, so the
  return value alone does not tell a failure from an empty mask.
\<close>

theorem get_proc_affinity_failure:
  "(fst (sched_getaffinity k st (ucast pid)) = - 1 \<longrightarrow> get_proc_affinity k m st pid = 0) \<and>
   (sched_getaffinity k st (ucast pid) = (0, {}) \<and> res_uninit m = 0 \<longrightarrow>
      get_proc_affinity k m st pid = 0)"
  by (auto simp: get_proc_affinity_def get_loop_empty split: prod.splits)

theorem get_proc_affinity_failure_witness:
  "fst (sched_getaffinity (table_kernel 4) Map.empty (ucast (999999 :: u64))) = - 1 \<and>
   get_proc_affinity (table_kernel 4) (wrap_machine 5) Map.empty 999999 = 0 \<and>
   sched_getaffinity (table_kernel 4) [7 \<mapsto> {}] (ucast (7 :: u64)) = (0, {}) \<and>
   res_uninit (wrap_machine 0) = 0 \<and>
   get_proc_affinity (table_kernel 4) (wrap_machine 0) [7 \<mapsto> {}] 7 = 0"
  using get_proc_affinity_failure [of "table_kernel 4" Map.empty 999999 "wrap_machine 5"]
        get_proc_affinity_failure [of "table_kernel 4" "[7 \<mapsto> {}]" 7 "wrap_machine 0"]
  by simp

section \<open>The status of \<^verbatim>\<open>set_proc_affinity\<close>\<close>

text \<open>
  Claim C6. The status that \<^verbatim>\<open>set_proc_affinity\<close> returns is the result of the one
  \<^verbatim>\<open>sched_setaffinity\<close> call it makes, unchanged, and the state it leaves is the state
  that call leaves: the status is 0 exactly when the call returned 0, and a nonzero
  result of the call is the status as it is.
\<close>

theorem set_proc_affinity_status:
  "fst (set_proc_affinity k m st pid cpus) =
     fst (sched_setaffinity k st (ucast pid) (set_loop k m st cpus 0 CPU_ZERO)) \<and>
   snd (set_proc_affinity k m st pid cpus) =
     snd (sched_setaffinity k st (ucast pid) (set_loop k m st cpus 0 CPU_ZERO)) \<and>
   ((fst (set_proc_affinity k m st pid cpus) = 0) =
    (fst (sched_setaffinity k st (ucast pid) (set_loop k m st cpus 0 CPU_ZERO)) = 0))"
  by (simp add: set_proc_affinity_def)

theorem set_proc_affinity_status_witness:
  "fst (set_proc_affinity (table_kernel 4) (wrap_machine 0) [7 \<mapsto> {0, 1, 2, 3}] 7 5) = 0 \<and>
   snd (set_proc_affinity (table_kernel 4) (wrap_machine 0) [7 \<mapsto> {0, 1, 2, 3}] 7 5)
     = [7 \<mapsto> {0, 2}] \<and>
   fst (set_proc_affinity (table_kernel 4) (wrap_machine 0) Map.empty 7 5) = - 1 \<and>
   snd (set_proc_affinity (table_kernel 4) (wrap_machine 0) Map.empty 7 5) = Map.empty"
  using set_proc_affinity_status [of "table_kernel 4" "wrap_machine 0" "[7 \<mapsto> {0, 1, 2, 3}]" 7 5]
        set_proc_affinity_status [of "table_kernel 4" "wrap_machine 0" Map.empty 7 5]
  by (simp add: example_set_loop_4)

section \<open>The CPU-set that \<^verbatim>\<open>set_proc_affinity\<close> requests\<close>

text \<open>
  On a host of at most 31 processors the requested CPU-set is the set of the mask's bits
  below the processor count (\<open>set_loop_exact\<close>), so two masks that agree below the
  processor count request the same CPU-set.
\<close>

lemma set_loop_low_bits:
  assumes "unat (get_proc_count k st) \<le> 31"
    and "\<And>t. t < unat (get_proc_count k st) \<Longrightarrow> bit cpus t = bit cpus' t"
  shows "set_loop k m st cpus 0 CPU_ZERO = set_loop k m st cpus' 0 CPU_ZERO"
  using assms(2) by (auto simp: set_loop_exact [OF assms(1)])

text \<open>
  Claim C7 says that two masks that agree on all bits below the processor count always
  request the same CPU-set. On a host of 32 processors the masks \<open>0\<close> and \<open>2 ^ 40\<close>
  agree on the bits 0 to 31, but the first requests the empty CPU-set and the second
  requests \<open>{31}\<close>: the test at \<open>i = 31\<close> is \<^verbatim>\<open>cpus & 0xFFFFFFFF80000000\<close>, which sees
  the bits 31 to 63 of the mask.
\<close>

theorem set_proc_affinity_high_bits:
  "take_bit 32 (0x10000000000 :: u64) = take_bit 32 0 \<and>
   set_loop (table_kernel 32) (wrap_machine 0) [7 \<mapsto> {0}] 0x10000000000 0 CPU_ZERO = {31} \<and>
   set_loop (table_kernel 32) (wrap_machine 0) [7 \<mapsto> {0}] 0 0 CPU_ZERO = {} \<and>
   set_proc_affinity (table_kernel 32) (wrap_machine 0) [7 \<mapsto> {0}] 7 0x10000000000
     = (0, [7 \<mapsto> {31}]) \<and>
   set_proc_affinity (table_kernel 32) (wrap_machine 0) [7 \<mapsto> {0}] 7 0
     = (- 1, [7 \<mapsto> {0}])"
  by (simp add: set_proc_affinity_def example_set_loop_32_high example_set_loop_32_zero)

section \<open>The processor count\<close>

text \<open>
  Claim C8. When \<^verbatim>\<open>sysconf\<close> succeeds, that is, when it returns a count of at least 1
  (a \<^verbatim>\<open>long\<close>, so below \<open>2^63\<close>), \<^verbatim>\<open>get_proc_count\<close> returns a value of at least 1,
  and it is the count of the state in which the call is made: nothing is kept between
  calls.
\<close>

theorem get_proc_count_positive:
  assumes "1 \<le> sysconf_nprocessors_onln k st" and "sysconf_nprocessors_onln k st < 2 ^ 63"
  shows "1 \<le> get_proc_count k st \<and> uint (get_proc_count k st) = sysconf_nprocessors_onln k st"
proof -
  let ?n = "sysconf_nprocessors_onln k st"
  have "uint (get_proc_count k st) = ?n mod 2 ^ 64"
    by (simp add: get_proc_count_def uint_word_of_int)
  also have "\<dots> = ?n" using assms by simp
  finally have u: "uint (get_proc_count k st) = ?n" .
  then have "1 \<le> get_proc_count k st" using assms(1) by (simp add: word_le_def)
  with u show ?thesis by simp
qed

theorem get_proc_count_positive_witness:
  "1 \<le> sysconf_nprocessors_onln (table_kernel 4) Map.empty \<and>
   sysconf_nprocessors_onln (table_kernel 4) Map.empty < 2 ^ 63 \<and>
   1 \<le> get_proc_count (table_kernel 4) Map.empty \<and>
   uint (get_proc_count (table_kernel 4) Map.empty) = 4"
  using get_proc_count_positive [of "table_kernel 4" Map.empty] by simp

section \<open>Idempotence\<close>

text \<open>
  Claim C9. On a host whose processor count the call does not change, and whose
  \<^verbatim>\<open>sched_setaffinity\<close> leaves the state as it is when the same request is repeated, a
  second \<^verbatim>\<open>set_proc_affinity\<close> with the same pid and mask leaves the state that the first
  one left: the second call builds the same CPU-set and makes the same request.
\<close>

theorem set_proc_affinity_idempotent:
  assumes count: "get_proc_count k (snd (set_proc_affinity k m st pid cpus)) = get_proc_count k st"
    and os_idem: "\<And>p S. snd (sched_setaffinity k (snd (sched_setaffinity k st p S)) p S)
                          = snd (sched_setaffinity k st p S)"
  shows "snd (set_proc_affinity k m (snd (set_proc_affinity k m st pid cpus)) pid cpus)
           = snd (set_proc_affinity k m st pid cpus)"
proof -
  let ?S = "set_loop k m st cpus 0 CPU_ZERO"
  let ?st1 = "snd (set_proc_affinity k m st pid cpus)"
  have "set_loop k m ?st1 cpus 0 CPU_ZERO = ?S" using count by (rule set_loop_same_count)
  then have "set_proc_affinity k m ?st1 pid cpus = sched_setaffinity k ?st1 (ucast pid) ?S"
    by (simp add: set_proc_affinity_def)
  moreover have "?st1 = snd (sched_setaffinity k st (ucast pid) ?S)"
    by (simp add: set_proc_affinity_def)
  ultimately show ?thesis using os_idem [of "ucast pid" ?S] by simp
qed

theorem set_proc_affinity_idempotent_witness:
  "snd (set_proc_affinity (table_kernel 4) (wrap_machine 0) [7 \<mapsto> {0, 1, 2, 3}] 7 5)
     = [7 \<mapsto> {0, 2}] \<and>
   snd (set_proc_affinity (table_kernel 4) (wrap_machine 0) [7 \<mapsto> {0, 2}] 7 5)
     = [7 \<mapsto> {0, 2}]"
proof -
  have a: "set_proc_affinity (table_kernel 4) (wrap_machine 0) [7 \<mapsto> {0, 1, 2, 3}] 7 5
             = (0, [7 \<mapsto> {0, 2}])"
    by (simp add: set_proc_affinity_def example_set_loop_4)
  have count: "get_proc_count (table_kernel 4)
                 (snd (set_proc_affinity (table_kernel 4) (wrap_machine 0)
                         [7 \<mapsto> {0, 1, 2, 3}] 7 5))
               = get_proc_count (table_kernel 4) [7 \<mapsto> {0, 1, 2, 3}]"
    by simp
  have idem: "snd (sched_setaffinity (table_kernel 4)
                     (snd (sched_setaffinity (table_kernel 4) [7 \<mapsto> {0, 1, 2, 3}] p S)) p S)
              = snd (sched_setaffinity (table_kernel 4) [7 \<mapsto> {0, 1, 2, 3}] p S)" for p S
    by (auto split: option.splits)
  from set_proc_affinity_idempotent [of "table_kernel 4" "wrap_machine 0", OF count idem] a
  show ?thesis by simp
qed

section \<open>Failure of the processor count query\<close>

text \<open>
  Claim C10. When \<^verbatim>\<open>sysconf\<close> fails with \<open>-1\<close>, \<^verbatim>\<open>get_proc_count\<close> returns
  \<open>2^64 - 1\<close>, and both conversion loops run with that bound: the loop condition is
  true at every counter value except \<open>-1\<close>, so each loop stops only when the counter
  has wrapped around to \<open>-1\<close>.
\<close>

theorem get_proc_count_sysconf_failure:
  assumes "sysconf_nprocessors_onln k st = - 1"
  shows "unat (get_proc_count k st) = 2 ^ 64 - 1 \<and>
         get_loop k m st cs i res =
           (if i = - 1 then res
            else get_loop k m st cs (i + 1)
                   (if CPU_ISSET i cs then res OR scast (shl1 m i) else res)) \<and>
         set_loop k m st cpus i s =
           (if i = - 1 then s
            else set_loop k m st cpus (i + 1)
                   (if cpus AND scast (shl1 m i) \<noteq> 0 then CPU_SET i s else s))"
proof -
  have "get_proc_count k st = - 1" using assms by (simp add: get_proc_count_def)
  then have "unat (get_proc_count k st) = 2 ^ 64 - 1" by (simp add: unsigned_minus_1_eq_mask mask_eq_exp_minus_1)
  moreover have "get_loop k m st cs i res =
           (if i = - 1 then res
            else get_loop k m st cs (i + 1)
                   (if CPU_ISSET i cs then res OR scast (shl1 m i) else res))"
    using loop_cond_failure [OF assms, of i]
    by (cases "i = - 1") (simp_all add: get_loop_step get_loop_stop)
  moreover have "set_loop k m st cpus i s =
           (if i = - 1 then s
            else set_loop k m st cpus (i + 1)
                   (if cpus AND scast (shl1 m i) \<noteq> 0 then CPU_SET i s else s))"
    using loop_cond_failure [OF assms, of i]
    by (cases "i = - 1") (simp_all add: set_loop_step set_loop_stop)
  ultimately show ?thesis by blast
qed

theorem get_proc_count_sysconf_failure_witness:
  "sysconf_nprocessors_onln (table_kernel (- 1)) Map.empty = - 1 \<and>
   unat (get_proc_count (table_kernel (- 1)) Map.empty) = 18446744073709551615 \<and>
   get_loop (table_kernel (- 1)) (wrap_machine 0) Map.empty {0} (- 1) 5 = 5 \<and>
   set_loop (table_kernel (- 1)) (wrap_machine 0) Map.empty 1 (- 1) {3} = {3}"
  using get_proc_count_sysconf_failure
          [of "table_kernel (- 1)" Map.empty "wrap_machine 0" "{0}" "- 1" 5 1 "{3}"]
  by simp

end
